theory Spec2Isabelle
  imports Main
begin

section \<open>The dynamic array \<open>vec\<close> of \<open>src/datastructures/vec.h\<close>\<close>

text \<open>
  The class \<open>vec<T>\<close> owns a heap array and three counters of type \<open>uint_32_cx\<close>.
  The fields keep the names of the source with the suffix \<open>m\<close> (a name may not end
  in an underscore here): \<open>arr_m\<close> is the array, \<open>size_m\<close> the number of live
  elements, \<open>len_m\<close> the recorded capacity and \<open>minlen_m\<close> the shrink threshold.
  The array is a list of slots whose length is the number of slots that \<open>new T[n]\<close>
  really allocated, which the code does not always keep equal to \<open>len_m\<close>.  A slot
  that was never written holds an indeterminate value (\<open>None\<close>), as it does for the
  scalar element types of the tests.  The counters are natural numbers: no claim
  depends on a counter running past the range of its type, and where the source
  mixes signed and unsigned values, or subtracts unsigned values, the arithmetic is
  written out.
\<close>

type_synonym 'a slot = "'a option"

record 'a vec =
  arr_m :: "'a slot list"
  size_m :: nat
  len_m :: nat
  minlen_m :: nat

text \<open>
  An operation returns normally, throws \<open>std::out_of_range\<close> (the object then still
  exists, in the state it had at the throw), or has undefined behaviour: it touches
  memory outside the allocation, reads an indeterminate value, reads an array that
  was deleted, hands an invalid range to \<open>std::move\<close>, or is called through a
  reference to no object.
\<close>

datatype exn = out_of_range

datatype ub = OutOfBounds | IndeterminateRead | UseAfterFree | InvalidRange | InvalidObject

datatype 's fault = Thrown exn 's | Undefined ub

text \<open>
  \<open>std::copy(src + lo, src + hi, dst + d)\<close>, and \<open>std::move\<close> on elements
  whose move is a copy.  Elements are transferred front to back, so a destination
  that lies before the source in the same array (the left shift of \<open>remove\<close>) sees
  the original values.
\<close>

definition copy_range ::
  "'a slot list \<Rightarrow> nat \<Rightarrow> nat \<Rightarrow> 'a slot list \<Rightarrow> nat \<Rightarrow> ub + 'a slot list" where
  "copy_range src lo hi dst d =
     (if hi < lo then Inl InvalidRange
      else if length src < hi \<or> length dst < d + (hi - lo) then Inl OutOfBounds
      else if None \<in> set (take (hi - lo) (drop lo src)) then Inl IndeterminateRead
      else Inr (take d dst @ take (hi - lo) (drop lo src) @ drop (d + (hi - lo)) dst))"

text \<open>The expression \<open>n / 6 < 64 ? 0 : n / 6\<close> that sets \<open>minlen_m\<close>.\<close>

definition minlen_of :: "nat \<Rightarrow> nat" where
  "minlen_of n = (if n div 6 < 64 then 0 else n div 6)"

definition grow :: "'a vec \<Rightarrow> 'a vec fault + 'a vec" where
  "grow v =
     (let len' = (len_m v * 3) div 2;
          n_arr = replicate len' None
      in case copy_range (arr_m v) 0 (size_m v) n_arr 0 of
           Inl u \<Rightarrow> Inl (Undefined u)
         | Inr a \<Rightarrow> Inr \<lparr>arr_m = a, size_m = size_m v, len_m = len',
                         minlen_m = minlen_of (size_m v)\<rparr>)"

definition shrink :: "'a vec \<Rightarrow> 'a vec fault + 'a vec" where
  "shrink v =
     (let len' = len_m v div 2;
          n_arr = replicate len' None
      in case copy_range (arr_m v) 0 (size_m v) n_arr 0 of
           Inl u \<Rightarrow> Inl (Undefined u)
         | Inr a \<Rightarrow> Inr \<lparr>arr_m = a, size_m = size_m v, len_m = len',
                         minlen_m = minlen_of (size_m v)\<rparr>)"

subsection \<open>Constructors\<close>

text \<open>\<open>vec(n_elem)\<close>, \<open>vec(n_elem, val)\<close> and \<open>vec(n_elem, form)\<close>.\<close>

definition vec_n :: "nat \<Rightarrow> 'a vec" where
  "vec_n n_elem =
     \<lparr>arr_m = replicate n_elem None, size_m = 0, len_m = n_elem,
      minlen_m = minlen_of n_elem\<rparr>"

definition vec_fill :: "nat \<Rightarrow> 'a \<Rightarrow> 'a vec" where
  "vec_fill n_elem val =
     \<lparr>arr_m = replicate n_elem (Some val), size_m = n_elem, len_m = n_elem,
      minlen_m = minlen_of n_elem\<rparr>"

definition vec_form :: "nat \<Rightarrow> (nat \<Rightarrow> 'a) \<Rightarrow> 'a vec" where
  "vec_form n_elem form =
     \<lparr>arr_m = map (\<lambda>i. Some (form i)) [0..<n_elem], size_m = n_elem, len_m = n_elem,
      minlen_m = minlen_of n_elem\<rparr>"

text \<open>
  \<open>vec(const std::vector<T>&)\<close>: the capacity and the allocation are
  \<open>vector.size() * 1.5\<close> truncated, the threshold comes from \<open>vector.size()\<close>.
  The constructor from \<open>const std::vector<T>&&\<close> is left out: it initialises the
  \<open>T*\<close> field from the \<open>const T*\<close> that \<open>data()\<close> returns there, so it cannot be
  instantiated.
\<close>

definition vec_vector :: "'a list \<Rightarrow> 'a vec" where
  "vec_vector vector =
     \<lparr>arr_m = map Some vector @ replicate ((length vector * 3) div 2 - length vector) None,
      size_m = length vector, len_m = (length vector * 3) div 2,
      minlen_m = minlen_of (length vector)\<rparr>"

text \<open>
  \<open>vec(std::initializer_list<T>)\<close>: the array has \<open>init_list.size()\<close> slots, the
  recorded capacity is twice that.
\<close>

definition vec_init_list :: "'a list \<Rightarrow> 'a vec" where
  "vec_init_list init_list =
     \<lparr>arr_m = map Some init_list, size_m = length init_list,
      len_m = length init_list * 2, minlen_m = 0\<rparr>"

text \<open>The copy constructor allocates \<open>len_\<close> slots and copies the live elements.\<close>

definition vec_copy :: "'a vec \<Rightarrow> 'a vec fault + 'a vec" where
  "vec_copy o' =
     (case copy_range (arr_m o') 0 (size_m o') (replicate (len_m o') None) 0 of
        Inl u \<Rightarrow> Inl (Undefined u)
      | Inr a \<Rightarrow> Inr \<lparr>arr_m = a, size_m = size_m o', len_m = len_m o',
                      minlen_m = minlen_m o'\<rparr>)"

text \<open>
  Copy assignment compares the addresses of the two objects, so it is modelled on a
  store of objects.  It allocates \<open>size_\<close> slots, after \<open>len_\<close> was set from the
  source.  A reference to no object is a fault of the caller.
\<close>

type_synonym 'a store = "nat \<rightharpoonup> 'a vec"

definition copy_assign :: "nat \<Rightarrow> nat \<Rightarrow> 'a store \<Rightarrow> 'a store fault + 'a store" where
  "copy_assign this that st =
     (case (st this, st that) of
        (Some t, Some o') \<Rightarrow>
          if this \<noteq> that then
            (case copy_range (arr_m o') 0 (size_m o') (replicate (size_m o') None) 0 of
               Inl u \<Rightarrow> Inl (Undefined u)
             | Inr a \<Rightarrow> Inr (st(this \<mapsto> \<lparr>arr_m = a, size_m = size_m o', len_m = len_m o',
                                         minlen_m = minlen_m o'\<rparr>)))
          else Inr st
      | _ \<Rightarrow> Inl (Undefined InvalidObject))"

text \<open>
  The move constructor hands the fields over and leaves the source with no array
  and all counters 0.  The result is the new object and the source afterwards.
\<close>

definition vec_move :: "'a vec \<Rightarrow> 'a vec \<times> 'a vec" where
  "vec_move o' = (o', \<lparr>arr_m = [], size_m = 0, len_m = 0, minlen_m = 0\<rparr>)"

subsection \<open>Element access\<close>

text \<open>
  \<open>arr_[i]\<close> as a reference: the slot, when it lies in the allocation.  Reading the
  value of a slot, as the comparisons \<open>arr_[i] == e\<close> do, needs the slot to hold one.
\<close>

definition subscript :: "'a slot list \<Rightarrow> nat \<Rightarrow> ub + 'a slot" where
  "subscript a i = (if i < length a then Inr (a ! i) else Inl OutOfBounds)"

definition read_slot :: "'a slot list \<Rightarrow> nat \<Rightarrow> ub + 'a" where
  "read_slot a i =
     (if i < length a then (case a ! i of None \<Rightarrow> Inl IndeterminateRead | Some x \<Rightarrow> Inr x)
      else Inl OutOfBounds)"

text \<open>
  A parameter \<open>const T&\<close> is a reference: to an object outside the buffer, which
  holds its value throughout the call, or to a slot of the buffer's own array, as
  in \<open>v.add(v[0])\<close>.  The value is read where the code uses it; a reference into
  an array that \<open>grow\<close> or \<open>shrink\<close> has deleted in the meantime dangles.
\<close>

datatype 'a arg = Value 'a | Slot nat

definition read_arg :: "'a slot list \<Rightarrow> bool \<Rightarrow> 'a arg \<Rightarrow> ub + 'a" where
  "read_arg a freed e =
     (case e of
        Value x \<Rightarrow> Inr x
      | Slot i \<Rightarrow> if freed then Inl UseAfterFree else read_slot a i)"

definition lift_ub :: "ub + 'r \<Rightarrow> 's fault + 'r" where
  "lift_ub r = (case r of Inl u \<Rightarrow> Inl (Undefined u) | Inr x \<Rightarrow> Inr x)"

text \<open>
  \<open>at\<close> takes a signed index; \<open>size_ + index\<close> is computed in the unsigned type and
  stored in the signed \<open>access\<close>, which gives the integer sum.
\<close>

definition at :: "int \<Rightarrow> 'a vec \<Rightarrow> 'a vec fault + 'a slot" where
  "at index v =
     (if index < 0 then
        (let access = int (size_m v) + index
         in if access \<ge> 0 then lift_ub (subscript (arr_m v) (nat access))
            else Inl (Thrown out_of_range v))
      else if index < int (size_m v) then lift_ub (subscript (arr_m v) (nat index))
      else Inl (Thrown out_of_range v))"

definition size_op :: "'a vec \<Rightarrow> nat" where
  "size_op v = size_m v"

subsection \<open>Adding and removing\<close>

text \<open>
  \<open>add(const T& e)\<close>: \<open>grow\<close> deletes the old array before \<open>arr_[size_++] = e\<close>
  reads \<open>e\<close>, the right operand first.
\<close>

definition add :: "'a arg \<Rightarrow> 'a vec \<Rightarrow> 'a vec fault + 'a vec" where
  "add e v =
     (case (if size_m v = len_m v then grow v else Inr v) of
        Inl f \<Rightarrow> Inl f
      | Inr v1 \<Rightarrow>
          (case read_arg (arr_m v1) (size_m v = len_m v) e of
             Inl u \<Rightarrow> Inl (Undefined u)
           | Inr x \<Rightarrow>
               if size_m v1 < length (arr_m v1)
               then Inr (v1\<lparr>arr_m := (arr_m v1)[size_m v1 := Some x],
                            size_m := size_m v1 + 1\<rparr>)
               else Inl (Undefined OutOfBounds)))"

text \<open>
  \<open>std::move(arr_ + i + 1, arr_ + size_, arr_ + i)\<close> followed by \<open>size_--\<close>, the
  removal step of both \<open>remove\<close> and \<open>removeAt\<close>.  A valid range has
  \<open>i + 1 \<le> size_\<close>, so the decrement does not wrap.
\<close>

definition erase_slot :: "nat \<Rightarrow> 'a vec \<Rightarrow> 'a vec fault + 'a vec" where
  "erase_slot i v =
     (case copy_range (arr_m v) (i + 1) (size_m v) (arr_m v) i of
        Inl u \<Rightarrow> Inl (Undefined u)
      | Inr a \<Rightarrow> Inr (v\<lparr>arr_m := a, size_m := size_m v - 1\<rparr>))"

text \<open>
  The loop of \<open>remove(const T& e)\<close> runs over \<open>i < len_\<close>.  The comparison
  \<open>arr_[i] == e\<close> reads the slot and then the argument; \<open>freed\<close> says that
  \<open>shrink\<close> has deleted the array the call started with.
\<close>

function remove_loop :: "bool \<Rightarrow> 'a arg \<Rightarrow> nat \<Rightarrow> 'a vec \<Rightarrow> 'a vec fault + 'a vec" where
  "remove_loop freed e i v =
     (if i < len_m v then
        (case read_slot (arr_m v) i of
           Inl u \<Rightarrow> Inl (Undefined u)
         | Inr x \<Rightarrow>
             (case read_arg (arr_m v) freed e of
                Inl u \<Rightarrow> Inl (Undefined u)
              | Inr y \<Rightarrow> if x = y then erase_slot i v else remove_loop freed e (i + 1) v))
      else Inr v)"
  by pat_completeness auto
termination
  by (relation "measure (\<lambda>(freed, e, i, v). len_m v - i)") auto

declare remove_loop.simps [simp del]

definition remove :: "'a arg \<Rightarrow> 'a vec \<Rightarrow> 'a vec fault + 'a vec" where
  "remove e v =
     (case (if size_m v < minlen_m v then shrink v else Inr v) of
        Inl f \<Rightarrow> Inl f
      | Inr v1 \<Rightarrow> remove_loop (size_m v < minlen_m v) e 0 v1)"

definition removeAt :: "nat \<Rightarrow> 'a vec \<Rightarrow> 'a vec fault + 'a vec" where
  "removeAt index v =
     (case (if size_m v < minlen_m v then shrink v else Inr v) of
        Inl f \<Rightarrow> Inl f
      | Inr v1 \<Rightarrow> erase_slot index v1)"

definition clear :: "'a vec \<Rightarrow> 'a vec" where
  "clear v = \<lparr>arr_m = replicate 32 None, size_m = 0, len_m = 32, minlen_m = 0\<rparr>"

subsection \<open>Searching\<close>

text \<open>
  \<open>contains(const T& val, bool startFront)\<close>.  The forward loop is
  \<open>for (int i = 0; i < size_; i++)\<close>, the backward loop is
  \<open>for (int i = size_ - 1; i > -1; i++)\<close>: it starts at the last live slot and
  counts upwards.  Nothing is deleted during the search.
\<close>

function contains_front :: "'a arg \<Rightarrow> nat \<Rightarrow> 'a vec \<Rightarrow> ub + bool" where
  "contains_front val i v =
     (if i < size_m v then
        (case read_slot (arr_m v) i of
           Inl u \<Rightarrow> Inl u
         | Inr x \<Rightarrow>
             (case read_arg (arr_m v) False val of
                Inl u \<Rightarrow> Inl u
              | Inr y \<Rightarrow> if x = y then Inr True else contains_front val (i + 1) v))
      else Inr False)"
  by pat_completeness auto
termination
  by (relation "measure (\<lambda>(val, i, v). size_m v - i)") auto

function contains_back :: "'a arg \<Rightarrow> int \<Rightarrow> 'a vec \<Rightarrow> ub + bool" where
  "contains_back val i v =
     (if i > -1 then
        (case read_slot (arr_m v) (nat i) of
           Inl u \<Rightarrow> Inl u
         | Inr x \<Rightarrow>
             (case read_arg (arr_m v) False val of
                Inl u \<Rightarrow> Inl u
              | Inr y \<Rightarrow> if x = y then Inr True else contains_back val (i + 1) v))
      else Inr False)"
  by pat_completeness auto
termination
  by (relation "measure (\<lambda>(val, i, v). nat (int (length (arr_m v)) - i))")
     (auto simp: read_slot_def split: if_splits)

declare contains_front.simps [simp del] contains_back.simps [simp del]

definition contains :: "'a arg \<Rightarrow> bool \<Rightarrow> 'a vec \<Rightarrow> 'a vec fault + bool" where
  "contains val startFront v =
     (if startFront then lift_ub (contains_front val 0 v)
      else lift_ub (contains_back val (int (size_m v) - 1) v))"

subsection \<open>Appending\<close>

text \<open>
  The unsigned difference \<open>len_ - size_\<close> of the loop test, for the 64 bits of
  \<open>uint_fast32_t\<close>: it wraps around when \<open>size_\<close> is the larger one.
\<close>

definition free_slots :: "'a vec \<Rightarrow> nat" where
  "free_slots v =
     (if size_m v \<le> len_m v then len_m v - size_m v else 2 ^ 64 - (size_m v - len_m v))"

text \<open>
  \<open>while (len_ - size_ < n) grow();\<close> does not end when \<open>grow\<close> leaves \<open>len_\<close> as
  it is, so the loop is a partial function: \<open>None\<close> is the run that never returns.
\<close>

partial_function (option) grow_loop :: "nat \<Rightarrow> 'a vec \<Rightarrow> ('a vec fault + 'a vec) option" where
  "grow_loop n v =
     (if free_slots v < n then
        (case grow v of Inl f \<Rightarrow> Some (Inl f) | Inr v1 \<Rightarrow> grow_loop n v1)
      else Some (Inr v))"

text \<open>
  \<open>append(vec)\<close> and \<open>append(list, endIndex, startIndex)\<close>; the appended buffer is
  an object other than the receiver.
\<close>

definition append :: "'a vec \<Rightarrow> 'a vec \<Rightarrow> ('a vec fault + 'a vec) option" where
  "append other v =
     (case grow_loop (size_m other) v of
        None \<Rightarrow> None
      | Some (Inl f) \<Rightarrow> Some (Inl f)
      | Some (Inr v1) \<Rightarrow>
          (case copy_range (arr_m other) 0 (size_m other) (arr_m v1) (size_m v1) of
             Inl u \<Rightarrow> Some (Inl (Undefined u))
           | Inr a \<Rightarrow> Some (Inr (v1\<lparr>arr_m := a, size_m := size_m v1 + size_m other\<rparr>))))"

definition append_range ::
  "'a vec \<Rightarrow> nat \<Rightarrow> nat \<Rightarrow> 'a vec \<Rightarrow> ('a vec fault + 'a vec) option" where
  "append_range list endIndex startIndex v =
     (if startIndex \<ge> endIndex \<or> endIndex > size_m list
      then Some (Inl (Thrown out_of_range v))
      else
        (case grow_loop (endIndex - startIndex) v of
           None \<Rightarrow> None
         | Some (Inl f) \<Rightarrow> Some (Inl f)
         | Some (Inr v1) \<Rightarrow>
             (case copy_range (arr_m list) startIndex endIndex (arr_m v1) (size_m v1) of
                Inl u \<Rightarrow> Some (Inl (Undefined u))
              | Inr a \<Rightarrow>
                  Some (Inr (v1\<lparr>arr_m := a,
                                 size_m := size_m v1 + (endIndex - startIndex)\<rparr>)))))"

subsection \<open>Well-formed buffers\<close>

text \<open>
  What every constructor establishes and every operation that returns keeps: the
  live elements lie in the allocation and hold values, they are no more than the
  recorded capacity, and the shrink threshold is at most a sixth of the capacity.
  The last predicate, that the recorded capacity does not exceed the allocation,
  is not kept by every operation.
\<close>

definition live :: "'a vec \<Rightarrow> 'a slot list" where
  "live v = take (size_m v) (arr_m v)"

definition vec_inv :: "'a vec \<Rightarrow> bool" where
  "vec_inv v \<longleftrightarrow>
     size_m v \<le> length (arr_m v) \<and> size_m v \<le> len_m v \<and> 6 * minlen_m v \<le> len_m v
     \<and> None \<notin> set (live v)"

definition capacity_allocated :: "'a vec \<Rightarrow> bool" where
  "capacity_allocated v \<longleftrightarrow> len_m v \<le> length (arr_m v)"

text \<open>
  The buffers a program can get: what the constructors make, and what the
  operations return on such buffers.  A write through \<open>operator[]\<close>, \<open>at\<close> or
  \<open>get_raw\<close> stores a value in a slot of the allocation.
\<close>

inductive reachable :: "'a vec \<Rightarrow> bool" where
  r_vec_n: "reachable (vec_n n)"
| r_vec_fill: "reachable (vec_fill n x)"
| r_vec_form: "reachable (vec_form n f)"
| r_vec_vector: "reachable (vec_vector xs)"
| r_vec_init_list: "reachable (vec_init_list xs)"
| r_vec_copy: "reachable v \<Longrightarrow> vec_copy v = Inr v' \<Longrightarrow> reachable v'"
| r_copy_assign:
    "reachable a \<Longrightarrow> this \<noteq> that \<Longrightarrow> st this = Some b \<Longrightarrow> st that = Some a \<Longrightarrow>
     copy_assign this that st = Inr st' \<Longrightarrow> st' this = Some b' \<Longrightarrow> reachable b'"
| r_vec_move: "reachable v \<Longrightarrow> reachable (fst (vec_move v))"
| r_moved_from: "reachable v \<Longrightarrow> reachable (snd (vec_move v))"
| r_write: "reachable v \<Longrightarrow> subscript (arr_m v) i = Inr s \<Longrightarrow>
     reachable (v\<lparr>arr_m := (arr_m v)[i := Some x]\<rparr>)"
| r_add: "reachable v \<Longrightarrow> add e v = Inr v' \<Longrightarrow> reachable v'"
| r_remove: "reachable v \<Longrightarrow> remove e v = Inr v' \<Longrightarrow> reachable v'"
| r_removeAt: "reachable v \<Longrightarrow> removeAt k v = Inr v' \<Longrightarrow> reachable v'"
| r_clear: "reachable v \<Longrightarrow> reachable (clear v)"
| r_append: "reachable v \<Longrightarrow> reachable other \<Longrightarrow> append other v = Some (Inr v') \<Longrightarrow>
     reachable v'"
| r_append_range:
    "reachable v \<Longrightarrow> reachable list \<Longrightarrow>
     append_range list endIndex startIndex v = Some (Inr v') \<Longrightarrow> reachable v'"


section \<open>Reallocation and the invariant\<close>

text \<open>When a transfer of slots succeeds, and what it produces.\<close>

lemma copy_range_Inr:
  "copy_range src lo hi dst d = Inr a \<longleftrightarrow>
     lo \<le> hi \<and> hi \<le> length src \<and> d + (hi - lo) \<le> length dst
     \<and> None \<notin> set (take (hi - lo) (drop lo src))
     \<and> a = take d dst @ take (hi - lo) (drop lo src) @ drop (d + (hi - lo)) dst"
  by (auto simp: copy_range_def)

lemma read_arg_Value: "read_arg a freed (Value x) = Inr x"
  by (simp add: read_arg_def)

text \<open>
  \<open>grow\<close> and \<open>shrink\<close> succeed exactly when the live elements fit both arrays and
  hold values; the new array has as many slots as the new capacity says.
\<close>

lemma grow_Inr:
  "grow v = Inr v' \<longleftrightarrow>
     size_m v \<le> length (arr_m v) \<and> size_m v \<le> (len_m v * 3) div 2 \<and> None \<notin> set (live v)
     \<and> v' = \<lparr>arr_m = live v @ replicate ((len_m v * 3) div 2 - size_m v) None,
             size_m = size_m v, len_m = (len_m v * 3) div 2, minlen_m = minlen_of (size_m v)\<rparr>"
  by (auto simp: grow_def Let_def live_def copy_range_def)

lemma shrink_Inr:
  "shrink v = Inr v' \<longleftrightarrow>
     size_m v \<le> length (arr_m v) \<and> size_m v \<le> len_m v div 2 \<and> None \<notin> set (live v)
     \<and> v' = \<lparr>arr_m = live v @ replicate (len_m v div 2 - size_m v) None,
             size_m = size_m v, len_m = len_m v div 2, minlen_m = minlen_of (size_m v)\<rparr>"
  by (auto simp: shrink_def Let_def live_def copy_range_def)

lemma minlen_of_le: "6 * minlen_of n \<le> n"
  by (simp add: minlen_of_def)

lemma live_nth: "i < size_m v \<Longrightarrow> live v ! i = arr_m v ! i"
  by (simp add: live_def)

lemma live_Some: "vec_inv v \<Longrightarrow> i < size_m v \<Longrightarrow> \<exists>x. arr_m v ! i = Some x"
proof -
  assume a: "vec_inv v" and i: "i < size_m v"
  then have "i < length (live v)" by (simp add: live_def vec_inv_def)
  then have "live v ! i \<in> set (live v)" by (rule nth_mem)
  moreover have "None \<notin> set (live v)" using a by (simp add: vec_inv_def)
  ultimately have "live v ! i \<noteq> None" by metis
  then show ?thesis using i by (simp add: live_nth)
qed

lemma grow_inv:
  assumes "vec_inv v" shows "\<exists>v'. grow v = Inr v' \<and> vec_inv v' \<and> capacity_allocated v' \<and> live v' = live v \<and> size_m v' = size_m v
    \<and> len_m v' = (len_m v * 3) div 2 \<and> length (arr_m v') = len_m v'"
proof -
  from assms have a: "size_m v \<le> length (arr_m v)" "size_m v \<le> len_m v" "None \<notin> set (live v)"
    by (simp_all add: vec_inv_def)
  let ?v' = "\<lparr>arr_m = live v @ replicate ((len_m v * 3) div 2 - size_m v) None,
             size_m = size_m v, len_m = (len_m v * 3) div 2, minlen_m = minlen_of (size_m v)\<rparr>"
  have g: "grow v = Inr ?v'" using a by (simp add: grow_Inr)
  have l: "length (live v) = size_m v" using a by (simp add: live_def)
  have "6 * minlen_of (size_m v) \<le> size_m v" by (rule minlen_of_le)
  then have m: "6 * minlen_of (size_m v) \<le> (len_m v * 3) div 2" using a by linarith
  have "vec_inv ?v'" using a l m by (simp add: vec_inv_def live_def)
  moreover have "capacity_allocated ?v'" using a l by (simp add: capacity_allocated_def)
  moreover have "live ?v' = live v" using l by (simp add: live_def)
  moreover have "length (arr_m ?v') = len_m ?v'" using a l by simp
  ultimately show ?thesis using g by auto
qed

lemma shrink_inv:
  assumes "vec_inv v" and "size_m v < minlen_m v"
  shows "\<exists>v'. shrink v = Inr v' \<and> vec_inv v' \<and> capacity_allocated v' \<and> live v' = live v
           \<and> size_m v' = size_m v \<and> len_m v' = len_m v div 2 \<and> length (arr_m v') = len_m v'
           \<and> \<not> size_m v' < minlen_m v'"
proof -
  from assms have a: "size_m v \<le> length (arr_m v)" "6 * minlen_m v \<le> len_m v"
      "None \<notin> set (live v)"
    by (simp_all add: vec_inv_def)
  from a(2) assms(2) have h: "size_m v \<le> len_m v div 2" by linarith
  let ?v' = "\<lparr>arr_m = live v @ replicate (len_m v div 2 - size_m v) None,
             size_m = size_m v, len_m = len_m v div 2, minlen_m = minlen_of (size_m v)\<rparr>"
  have g: "shrink v = Inr ?v'" using a h by (simp add: shrink_Inr)
  have l: "length (live v) = size_m v" using a by (simp add: live_def)
  have k: "6 * minlen_of (size_m v) \<le> size_m v" by (rule minlen_of_le)
  then have m: "6 * minlen_of (size_m v) \<le> len_m v div 2" using h by linarith
  have "vec_inv ?v'" using a l m h by (simp add: vec_inv_def live_def)
  moreover have "capacity_allocated ?v'" using h l by (simp add: capacity_allocated_def)
  moreover have "live ?v' = live v" using l by (simp add: live_def)
  moreover have "length (arr_m ?v') = len_m ?v'" using h l by simp
  moreover have "\<not> size_m ?v' < minlen_m ?v'" using k by simp
  ultimately show ?thesis using g by auto
qed

lemma grow_live: "grow v = Inr v1 \<Longrightarrow> live v1 = live v \<and> size_m v1 = size_m v"
  by (auto simp: grow_Inr live_def)

lemma grow_not_Thrown: "grow v \<noteq> Inl (Thrown x w)"
  by (simp add: grow_def Let_def split: sum.splits)

text \<open>The constructors establish the invariant.\<close>

lemma vec_n_inv: "vec_inv (vec_n n)"
  by (simp add: vec_inv_def vec_n_def live_def minlen_of_le)

lemma vec_fill_inv: "vec_inv (vec_fill n x)"
  by (simp add: vec_inv_def vec_fill_def live_def minlen_of_le)

lemma vec_form_inv: "vec_inv (vec_form n f)"
  by (auto simp: vec_inv_def vec_form_def live_def minlen_of_le)

lemma vec_vector_inv: "vec_inv (vec_vector xs)"
proof -
  have "6 * minlen_of (length xs) \<le> length xs" by (rule minlen_of_le)
  then have "6 * minlen_of (length xs) \<le> (length xs * 3) div 2" by linarith
  then show ?thesis by (auto simp: vec_inv_def vec_vector_def live_def)
qed

lemma vec_init_list_inv: "vec_inv (vec_init_list xs)"
  by (simp add: vec_inv_def vec_init_list_def live_def image_iff)

lemma vec_move_inv: "vec_inv v \<Longrightarrow> vec_inv (fst (vec_move v)) \<and> vec_inv (snd (vec_move v))"
  by (simp add: vec_move_def vec_inv_def live_def)

lemma clear_inv: "vec_inv (clear v)"
  by (simp add: vec_inv_def clear_def live_def)

lemma vec_copy_inv: "vec_inv v \<Longrightarrow> vec_copy v = Inr v' \<Longrightarrow> vec_inv v' \<and> live v' = live v"
  by (auto simp: vec_copy_def vec_inv_def live_def copy_range_def split: sum.splits if_splits)

text \<open>The operations that return keep it.\<close>

lemma add_inv:
  assumes "vec_inv v" and "add e v = Inr v'"
  shows "vec_inv v' \<and> (\<exists>x. live v' = live v @ [Some x])"
proof -
  obtain v1 x where v1: "(if size_m v = len_m v then grow v else Inr v) = Inr v1"
    and w: "size_m v1 < length (arr_m v1)"
    and v': "v' = v1\<lparr>arr_m := (arr_m v1)[size_m v1 := Some x], size_m := size_m v1 + 1\<rparr>"
    using assms(2) by (auto simp: add_def split: sum.splits if_splits)
  have i1: "vec_inv v1 \<and> size_m v1 < len_m v1 \<and> live v1 = live v"
  proof (cases "size_m v = len_m v")
    case True
    with v1 have g: "grow v = Inr v1" by simp
    from grow_inv [OF assms(1)] g w show ?thesis by auto
  next
    case False
    with v1 assms(1) show ?thesis by (auto simp: vec_inv_def)
  qed
  then have t: "take (size_m v1) (arr_m v1) = live v" by (simp add: live_def)
  have l: "live v' = live v @ [Some x]"
    using w t v' by (simp add: live_def take_Suc_conv_app_nth)
  moreover have "None \<notin> set (live v)" using assms(1) by (simp add: vec_inv_def)
  ultimately have "None \<notin> set (live v')" by simp
  then have "vec_inv v'" using i1 w v' by (simp add: vec_inv_def)
  with l show ?thesis by blast
qed

lemma erase_slot_inv:
  assumes "vec_inv v" and "erase_slot i v = Inr v'"
  shows "vec_inv v' \<and> i < size_m v \<and> size_m v' = size_m v - 1
         \<and> live v' = take i (live v) @ drop (Suc i) (live v)"
proof -
  from assms(2) obtain a where
    cp: "copy_range (arr_m v) (i + 1) (size_m v) (arr_m v) i = Inr a"
    and v': "v' = v\<lparr>arr_m := a, size_m := size_m v - 1\<rparr>"
    by (auto simp: erase_slot_def split: sum.splits)
  from cp [unfolded copy_range_Inr]
  have b: "i + 1 \<le> size_m v" "size_m v \<le> length (arr_m v)"
    and a: "a = take i (arr_m v) @ take (size_m v - (i + 1)) (drop (i + 1) (arr_m v))
               @ drop (i + (size_m v - (i + 1))) (arr_m v)"
    by blast+
  have l1: "length (take i (arr_m v)) = i" using b by simp
  have l2: "length (take (size_m v - (i + 1)) (drop (i + 1) (arr_m v))) = size_m v - (i + 1)"
    using b by simp
  have "live v' = take (size_m v - 1) a" using v' by (simp add: live_def)
  also have "\<dots> = take i (arr_m v) @ take (size_m v - (i + 1)) (drop (i + 1) (arr_m v))"
    unfolding a using l1 l2 b by simp
  also have "\<dots> = take i (live v) @ drop (Suc i) (live v)"
    using b by (simp add: live_def drop_take min_def)
  finally have l: "live v' = take i (live v) @ drop (Suc i) (live v)" .
  have "set (live v') \<subseteq> set (live v)"
    unfolding l using set_take_subset [of i "live v"] set_drop_subset [of "Suc i" "live v"]
    by auto
  moreover have "None \<notin> set (live v)" using assms(1) by (simp add: vec_inv_def)
  ultimately have n: "None \<notin> set (live v')" by blast
  have "length a = length (arr_m v)" unfolding a using b by simp
  moreover from assms(1) have "size_m v \<le> len_m v" "6 * minlen_m v \<le> len_m v"
    by (simp_all add: vec_inv_def)
  ultimately have "vec_inv v'" using b n v' by (auto simp: vec_inv_def)
  then show ?thesis using l b v' by simp
qed

lemma remove_loop_inv:
  "vec_inv v \<Longrightarrow> remove_loop freed e i v = Inr v' \<Longrightarrow> vec_inv v'"
proof (induction freed e i v rule: remove_loop.induct)
  case (1 freed e i v)
  show ?case
  proof (cases "i < len_m v")
    case False
    with "1.prems" show ?thesis by (simp add: remove_loop.simps)
  next
    case True
    from "1.prems"(2) True obtain x y where r: "read_slot (arr_m v) i = Inr x"
      and a: "read_arg (arr_m v) freed e = Inr y"
      by (subst (asm) remove_loop.simps) (auto split: sum.splits)
    show ?thesis
    proof (cases "x = y")
      case True
      with \<open>i < len_m v\<close> r a "1.prems"(2) have "erase_slot i v = Inr v'"
        by (subst (asm) remove_loop.simps) simp
      with erase_slot_inv [OF "1.prems"(1)] show ?thesis by blast
    next
      case False
      with \<open>i < len_m v\<close> r a "1.prems"(2) have "remove_loop freed e (i + 1) v = Inr v'"
        by (subst (asm) remove_loop.simps) simp
      with "1.IH" [OF \<open>i < len_m v\<close> r a False "1.prems"(1)] show ?thesis by simp
    qed
  qed
qed

lemma pre_shrink_inv:
  assumes "vec_inv v" and "(if size_m v < minlen_m v then shrink v else Inr v) = Inr v1"
  shows "vec_inv v1"
proof (cases "size_m v < minlen_m v")
  case True
  with shrink_inv [OF assms(1) True] assms(2) show ?thesis by auto
next
  case False
  with assms show ?thesis by simp
qed

lemma remove_inv: "vec_inv v \<Longrightarrow> remove e v = Inr v' \<Longrightarrow> vec_inv v'"
  by (auto simp: remove_def split: sum.splits dest: pre_shrink_inv remove_loop_inv)

lemma removeAt_inv: "vec_inv v \<Longrightarrow> removeAt k v = Inr v' \<Longrightarrow> vec_inv v'"
  by (auto simp: removeAt_def split: sum.splits dest: pre_shrink_inv erase_slot_inv)

section \<open>The growing loop of \<open>append\<close>\<close>

text \<open>
  What the loop returns, when it returns: never an exception, and a buffer with the
  same live elements and enough free slots.
\<close>

lemma grow_loop_result:
  assumes "grow_loop n v = Some r"
  shows "(\<forall>x w. r \<noteq> Inl (Thrown x w))
     \<and> (\<forall>v'. r = Inr v' \<longrightarrow> live v' = live v \<and> size_m v' = size_m v \<and> \<not> free_slots v' < n)"
proof (rule grow_loop.raw_induct [where P = "\<lambda>n v r. (\<forall>x w. r \<noteq> Inl (Thrown x w))
     \<and> (\<forall>v'. r = Inr v' \<longrightarrow> live v' = live v \<and> size_m v' = size_m v \<and> \<not> free_slots v' < n)",
     OF _ assms])
  fix f :: "nat \<Rightarrow> 'a vec \<Rightarrow> ('a vec fault + 'a vec) option" and n v r
  assume IH: "\<And>n v y. f n v = Some y \<Longrightarrow> (\<forall>x w. y \<noteq> Inl (Thrown x w))
     \<and> (\<forall>v'. y = Inr v' \<longrightarrow> live v' = live v \<and> size_m v' = size_m v \<and> \<not> free_slots v' < n)"
    and eq: "(if free_slots v < n
      then case grow v of Inl f \<Rightarrow> Some (Inl f) | Inr v1 \<Rightarrow> f n v1
      else Some (Inr v)) = Some r"
  show "(\<forall>x w. r \<noteq> Inl (Thrown x w))
     \<and> (\<forall>v'. r = Inr v' \<longrightarrow> live v' = live v \<and> size_m v' = size_m v \<and> \<not> free_slots v' < n)"
  proof (cases "free_slots v < n")
    case False
    with eq show ?thesis by auto
  next
    case True
    show ?thesis
    proof (cases "grow v")
      case (Inl g)
      with True eq have "r = Inl g" by simp
      with Inl grow_not_Thrown [of v] show ?thesis by auto
    next
      case (Inr v1)
      with True eq have "f n v1 = Some r" by simp
      from IH [OF this] grow_live [OF Inr] show ?thesis by simp
    qed
  qed
qed

text \<open>
  The loop returns when the capacity is at least 2, since each round then raises
  it.  With a capacity of 0 or 1 the capacity stays as it is and the loop does not
  end.
\<close>

lemma grow_loop_returns:
  assumes "vec_inv v" and "capacity_allocated v" and "2 \<le> len_m v \<or> \<not> free_slots v < n"
  shows "\<exists>v'. grow_loop n v = Some (Inr v') \<and> vec_inv v' \<and> capacity_allocated v'"
  using assms
proof (induction "n + size_m v - len_m v" arbitrary: v rule: less_induct)
  case less
  show ?case
  proof (cases "free_slots v < n")
    case False
    then have "grow_loop n v = Some (Inr v)" by (simp add: grow_loop.simps)
    with less.prems show ?thesis by simp
  next
    case True
    with less.prems have two: "2 \<le> len_m v" by simp
    from less.prems have sl: "size_m v \<le> len_m v" by (simp add: vec_inv_def)
    with True have room: "len_m v - size_m v < n" by (simp add: free_slots_def)
    from grow_inv [OF less.prems(1)] obtain v1 where
      g: "grow v = Inr v1" and i: "vec_inv v1" and c: "capacity_allocated v1"
      and s: "size_m v1 = size_m v" and l: "len_m v1 = (len_m v * 3) div 2"
      by blast
    from two l have bigger: "len_m v < len_m v1" by linarith
    with two have two1: "2 \<le> len_m v1" by simp
    have "n + size_m v1 - len_m v1 < n + size_m v - len_m v"
      using bigger room sl s by linarith
    from less.hyps [OF this i c] two1 obtain v' where
      "grow_loop n v1 = Some (Inr v')" "vec_inv v'" "capacity_allocated v'"
      by blast
    moreover have "grow_loop n v = grow_loop n v1"
      using True g by (subst grow_loop.simps) simp
    ultimately show ?thesis by simp
  qed
qed

lemma grow_loop_diverges:
  assumes "vec_inv v" and "len_m v < 2" and "free_slots v < n"
  shows "grow_loop n v = None"
proof (rule ccontr)
  assume "grow_loop n v \<noteq> None"
  then obtain r where r: "grow_loop n v = Some r" by blast
  have "\<not> (vec_inv v \<and> len_m v < 2 \<and> free_slots v < n)"
  proof (rule grow_loop.raw_induct [where P = "\<lambda>n v r. \<not> (vec_inv v \<and> len_m v < 2 \<and> free_slots v < n)",
     OF _ r])
    fix f :: "nat \<Rightarrow> 'a vec \<Rightarrow> ('a vec fault + 'a vec) option" and n v r
    assume IH: "\<And>n v y. f n v = Some y \<Longrightarrow> \<not> (vec_inv v \<and> len_m v < 2 \<and> free_slots v < n)"
      and eq: "(if free_slots v < n
        then case grow v of Inl f \<Rightarrow> Some (Inl f) | Inr v1 \<Rightarrow> f n v1
        else Some (Inr v)) = Some r"
    show "\<not> (vec_inv v \<and> len_m v < 2 \<and> free_slots v < n)"
    proof
      assume st: "vec_inv v \<and> len_m v < 2 \<and> free_slots v < n"
      from grow_inv [of v] st obtain v1 where
        g: "grow v = Inr v1" and i: "vec_inv v1"
        and s: "size_m v1 = size_m v" and l: "len_m v1 = (len_m v * 3) div 2"
        by blast
      from st l have same: "len_m v1 = len_m v" by linarith
      with s have "free_slots v1 = free_slots v" by (simp add: free_slots_def)
      with st have "free_slots v1 < n" by simp
      moreover from eq st g have "f n v1 = Some r" by simp
      ultimately show False using IH [of n v1 r] i same st by simp
    qed
  qed
  with assms show False by simp
qed

lemma append_range_valid:
  "startIndex < endIndex \<Longrightarrow> endIndex \<le> size_m list \<Longrightarrow>
   append_range list endIndex startIndex v =
     (case grow_loop (endIndex - startIndex) v of
        None \<Rightarrow> None
      | Some (Inl f) \<Rightarrow> Some (Inl f)
      | Some (Inr v1) \<Rightarrow>
          (case copy_range (arr_m list) startIndex endIndex (arr_m v1) (size_m v1) of
             Inl u \<Rightarrow> Some (Inl (Undefined u))
           | Inr a \<Rightarrow>
               Some (Inr (v1\<lparr>arr_m := a,
                              size_m := size_m v1 + (endIndex - startIndex)\<rparr>))))"
  by (simp add: append_range_def)

lemma append_range_invalid:
  "endIndex \<le> startIndex \<or> size_m list < endIndex \<Longrightarrow>
   append_range list endIndex startIndex v = Some (Inl (Thrown out_of_range v))"
  by (auto simp: append_range_def)

lemma append_range_no_throw:
  assumes "startIndex < endIndex" and "endIndex \<le> size_m list"
  shows "append_range list endIndex startIndex v \<noteq> Some (Inl (Thrown x w))"
proof
  assume t: "append_range list endIndex startIndex v = Some (Inl (Thrown x w))"
  show False
  proof (cases "grow_loop (endIndex - startIndex) v")
    case None
    with t assms show False by (simp add: append_range_valid)
  next
    case (Some r)
    from grow_loop_result [OF Some] have nt: "r \<noteq> Inl (Thrown x w)" by blast
    show False
    proof (cases r)
      case (Inl f)
      with Some t assms nt show False by (simp add: append_range_valid)
    next
      case (Inr v1)
      with Some t assms show False
        by (simp add: append_range_valid split: sum.splits)
    qed
  qed
qed

lemma append_range_appends:
  assumes "append_range list endIndex startIndex v = Some (Inr v')"
  shows "startIndex < endIndex \<and> endIndex \<le> size_m list
         \<and> size_m v' = size_m v + (endIndex - startIndex)
         \<and> live v' = live v @ take (endIndex - startIndex) (drop startIndex (live list))"
proof -
  have ok: "startIndex < endIndex" "endIndex \<le> size_m list"
    using assms by (auto simp: append_range_def split: if_splits)
  let ?n = "endIndex - startIndex"
  from assms ok obtain v1 a where
    gl: "grow_loop ?n v = Some (Inr v1)"
    and cp: "copy_range (arr_m list) startIndex endIndex (arr_m v1) (size_m v1) = Inr a"
    and v': "v' = v1\<lparr>arr_m := a, size_m := size_m v1 + ?n\<rparr>"
    by (auto simp: append_range_valid split: option.splits sum.splits)
  from grow_loop_result [OF gl] have l: "live v1 = live v" and s: "size_m v1 = size_m v"
    by simp_all
  from cp [unfolded copy_range_Inr]
  have b: "endIndex \<le> length (arr_m list)" "size_m v1 + ?n \<le> length (arr_m v1)"
    and a: "a = take (size_m v1) (arr_m v1) @ take ?n (drop startIndex (arr_m list))
               @ drop (size_m v1 + ?n) (arr_m v1)"
    by blast+
  have seg: "take ?n (drop startIndex (live list)) = take ?n (drop startIndex (arr_m list))"
    using ok by (simp add: live_def drop_take min_def)
  have len1: "length (take (size_m v1) (arr_m v1)) = size_m v1" using b by simp
  have len2: "length (take ?n (drop startIndex (arr_m list))) = ?n" using b ok by simp
  have "live v' = take (size_m v1 + ?n) a" using v' by (simp add: live_def)
  also have "\<dots> = take (size_m v1) (arr_m v1) @ take ?n (drop startIndex (arr_m list))"
    unfolding a using len1 len2 by simp
  also have "\<dots> = live v @ take ?n (drop startIndex (live list))"
    using l seg by (simp add: live_def)
  finally have "live v' = live v @ take ?n (drop startIndex (live list))" .
  moreover have "size_m v' = size_m v + ?n" using v' s by simp
  ultimately show ?thesis using ok by simp
qed

lemma append_range_returns:
  assumes "startIndex < endIndex" and "endIndex \<le> size_m list" and "vec_inv list"
    and "vec_inv v" and "capacity_allocated v"
    and "2 \<le> len_m v \<or> endIndex - startIndex \<le> len_m v - size_m v"
  shows "\<exists>v'. append_range list endIndex startIndex v = Some (Inr v')"
proof -
  let ?n = "endIndex - startIndex"
  from assms(4) have sl: "size_m v \<le> len_m v" by (simp add: vec_inv_def)
  with assms(6) have "2 \<le> len_m v \<or> \<not> free_slots v < ?n" by (auto simp: free_slots_def)
  from grow_loop_returns [OF assms(4,5) this] obtain v1 where
    gl: "grow_loop ?n v = Some (Inr v1)" and i: "vec_inv v1" and c: "capacity_allocated v1"
    by blast
  from grow_loop_result [OF gl] have nf: "\<not> free_slots v1 < ?n" by simp
  from i have sl1: "size_m v1 \<le> len_m v1" by (simp add: vec_inv_def)
  with nf c have fit: "size_m v1 + ?n \<le> length (arr_m v1)"
    by (simp add: free_slots_def capacity_allocated_def)
  from assms(3) have li: "size_m list \<le> length (arr_m list)" "None \<notin> set (live list)"
    by (simp_all add: vec_inv_def)
  have "set (take ?n (drop startIndex (arr_m list))) \<subseteq> set (live list)"
  proof -
    have "take ?n (drop startIndex (arr_m list)) = take ?n (drop startIndex (live list))"
      using assms(1,2) by (simp add: live_def drop_take min_def)
    moreover have "set (take ?n (drop startIndex (live list))) \<subseteq> set (live list)"
      by (meson set_take_subset set_drop_subset subset_trans)
    ultimately show ?thesis by simp
  qed
  with li(2) have nn: "None \<notin> set (take ?n (drop startIndex (arr_m list)))" by blast
  have "\<exists>a. copy_range (arr_m list) startIndex endIndex (arr_m v1) (size_m v1) = Inr a"
    using assms(1,2) li(1) fit nn by (simp add: copy_range_Inr)
  then show ?thesis using gl assms(1,2) by (auto simp: append_range_valid)
qed

text \<open>\<open>append\<close> in both forms, and copy assignment, keep the invariant.\<close>

lemma grow_loop_inv:
  assumes "grow_loop n v = Some r" and "vec_inv v" and "r = Inr v'"
  shows "vec_inv v'"
proof -
  have "vec_inv v \<longrightarrow> (\<forall>v'. r = Inr v' \<longrightarrow> vec_inv v')"
  proof (rule grow_loop.raw_induct [where P = "\<lambda>n v r. vec_inv v \<longrightarrow> (\<forall>v'. r = Inr v' \<longrightarrow> vec_inv v')",
      OF _ assms(1)])
    fix f :: "nat \<Rightarrow> 'a vec \<Rightarrow> ('a vec fault + 'a vec) option" and n v r
    assume IH: "\<And>n v y. f n v = Some y \<Longrightarrow> vec_inv v \<longrightarrow> (\<forall>v'. y = Inr v' \<longrightarrow> vec_inv v')"
      and eq: "(if free_slots v < n
        then case grow v of Inl f \<Rightarrow> Some (Inl f) | Inr v1 \<Rightarrow> f n v1
        else Some (Inr v)) = Some r"
    show "vec_inv v \<longrightarrow> (\<forall>v'. r = Inr v' \<longrightarrow> vec_inv v')"
    proof
      assume i: "vec_inv v"
      show "\<forall>v'. r = Inr v' \<longrightarrow> vec_inv v'"
      proof (cases "free_slots v < n")
        case False
        with eq i show ?thesis by auto
      next
        case True
        from grow_inv [OF i] obtain v1 where g: "grow v = Inr v1" and i1: "vec_inv v1"
          by blast
        with True eq have "f n v1 = Some r" by simp
        from IH [OF this] i1 show ?thesis by simp
      qed
    qed
  qed
  with assms(2,3) show ?thesis by simp
qed

lemma append_tail_inv:
  assumes "vec_inv v1" and "\<not> free_slots v1 < n" and "hi - lo = n"
    and "copy_range src lo hi (arr_m v1) (size_m v1) = Inr a"
  shows "vec_inv (v1\<lparr>arr_m := a, size_m := size_m v1 + n\<rparr>)"
proof -
  from assms(1) have i: "size_m v1 \<le> length (arr_m v1)" "size_m v1 \<le> len_m v1"
      "6 * minlen_m v1 \<le> len_m v1" "None \<notin> set (take (size_m v1) (arr_m v1))"
    by (simp_all add: vec_inv_def live_def)
  from assms(2) i(2) have fit: "size_m v1 + n \<le> len_m v1" by (simp add: free_slots_def)
  from assms(4) [unfolded copy_range_Inr] assms(3)
  have b: "hi \<le> length src" "size_m v1 + n \<le> length (arr_m v1)" "lo \<le> hi"
    and nn: "None \<notin> set (take n (drop lo src))"
    and a: "a = take (size_m v1) (arr_m v1) @ take n (drop lo src)
               @ drop (size_m v1 + n) (arr_m v1)"
    by blast+
  have len1: "length (take (size_m v1) (arr_m v1)) = size_m v1" using i by simp
  have len2: "length (take n (drop lo src)) = n" using b assms(3) by simp
  have la: "length a = length (arr_m v1)" unfolding a using len1 len2 b by simp
  have "take (size_m v1 + n) a = take (size_m v1) (arr_m v1) @ take n (drop lo src)"
    unfolding a using len1 len2 by simp
  then have "None \<notin> set (take (size_m v1 + n) a)" using i(4) nn by simp
  then show ?thesis using la b fit i(3) by (simp add: vec_inv_def live_def)
qed

lemma append_range_inv:
  assumes "vec_inv v" and "append_range list endIndex startIndex v = Some (Inr v')"
  shows "vec_inv v'"
proof -
  have ok: "startIndex < endIndex" "endIndex \<le> size_m list"
    using assms(2) by (auto simp: append_range_def split: if_splits)
  let ?n = "endIndex - startIndex"
  from assms(2) ok obtain v1 a where
    gl: "grow_loop ?n v = Some (Inr v1)"
    and cp: "copy_range (arr_m list) startIndex endIndex (arr_m v1) (size_m v1) = Inr a"
    and v': "v' = v1\<lparr>arr_m := a, size_m := size_m v1 + ?n\<rparr>"
    by (auto simp: append_range_valid split: option.splits sum.splits)
  from grow_loop_inv [OF gl assms(1)] have i1: "vec_inv v1" by simp
  from grow_loop_result [OF gl] have nf: "\<not> free_slots v1 < ?n" by simp
  from append_tail_inv [OF i1 nf _ cp] v' show ?thesis by simp
qed

lemma append_inv:
  assumes "vec_inv v" and "append other v = Some (Inr v')"
  shows "vec_inv v' \<and> live v' = live v @ live other"
proof -
  from assms(2) obtain v1 a where
    gl: "grow_loop (size_m other) v = Some (Inr v1)"
    and cp: "copy_range (arr_m other) 0 (size_m other) (arr_m v1) (size_m v1) = Inr a"
    and v': "v' = v1\<lparr>arr_m := a, size_m := size_m v1 + size_m other\<rparr>"
    by (auto simp: append_def split: option.splits sum.splits)
  from grow_loop_inv [OF gl assms(1)] have i1: "vec_inv v1" by simp
  from grow_loop_result [OF gl] have nf: "\<not> free_slots v1 < size_m other"
    and l: "live v1 = live v" by simp_all
  from append_tail_inv [OF i1 nf _ cp] v' have i: "vec_inv v'" by simp
  from cp [unfolded copy_range_Inr]
  have b: "size_m other \<le> length (arr_m other)"
      "size_m v1 + size_m other \<le> length (arr_m v1)"
    and a: "a = take (size_m v1) (arr_m v1) @ take (size_m other) (arr_m other)
               @ drop (size_m v1 + size_m other) (arr_m v1)"
    by simp_all
  have len1: "length (take (size_m v1) (arr_m v1)) = size_m v1" using b by simp
  have len2: "length (take (size_m other) (arr_m other)) = size_m other" using b by simp
  have "live v' = take (size_m v1 + size_m other) a" using v' by (simp add: live_def)
  also have "\<dots> = take (size_m v1) (arr_m v1) @ take (size_m other) (arr_m other)"
    unfolding a using len1 len2 by simp
  finally have "live v' = live v @ live other" using l by (simp add: live_def)
  with i show ?thesis by simp
qed

lemma copy_assign_inv:
  assumes "this \<noteq> that" and "st this = Some b" and "st that = Some a" and "vec_inv a"
    and "copy_assign this that st = Inr st'"
  shows "\<exists>b'. st' = st(this \<mapsto> b') \<and> vec_inv b' \<and> live b' = live a"
proof -
  from assms(4) have i: "size_m a \<le> length (arr_m a)" "size_m a \<le> len_m a"
      "6 * minlen_m a \<le> len_m a" "None \<notin> set (take (size_m a) (arr_m a))"
    by (simp_all add: vec_inv_def live_def)
  let ?b' = "\<lparr>arr_m = take (size_m a) (arr_m a), size_m = size_m a, len_m = len_m a,
              minlen_m = minlen_m a\<rparr>"
  have "copy_assign this that st = Inr (st(this \<mapsto> ?b'))"
    using assms(1,2,3) i by (simp add: copy_assign_def copy_range_def)
  with assms(5) have "st' = st(this \<mapsto> ?b')" by simp
  moreover have "vec_inv ?b'" using i by (simp add: vec_inv_def live_def)
  moreover have "live ?b' = live a" by (simp add: live_def)
  ultimately show ?thesis by blast
qed

text \<open>So every buffer a program can get is well-formed.\<close>

lemma write_inv:
  assumes "vec_inv v"
  shows "vec_inv (v\<lparr>arr_m := (arr_m v)[i := Some x]\<rparr>)"
proof -
  have "set (take (size_m v) ((arr_m v)[i := Some x]))
          \<subseteq> insert (Some x) (set (take (size_m v) (arr_m v)))"
    unfolding take_update_swap by (rule set_update_subset_insert)
  moreover from assms have "None \<notin> set (take (size_m v) (arr_m v))"
    by (simp add: vec_inv_def live_def)
  ultimately have "None \<notin> set (take (size_m v) ((arr_m v)[i := Some x]))" by blast
  with assms show ?thesis by (simp add: vec_inv_def live_def)
qed

lemma reachable_inv: "reachable v \<Longrightarrow> vec_inv v"
proof (induction rule: reachable.induct)
  case (r_vec_n n)
  show ?case by (rule vec_n_inv)
next
  case (r_vec_fill n x)
  show ?case by (rule vec_fill_inv)
next
  case (r_vec_form n f)
  show ?case by (rule vec_form_inv)
next
  case (r_vec_vector xs)
  show ?case by (rule vec_vector_inv)
next
  case (r_vec_init_list xs)
  show ?case by (rule vec_init_list_inv)
next
  case (r_vec_copy v v')
  with vec_copy_inv [of v v'] show ?case by simp
next
  case (r_copy_assign a this that st b st' b')
  from copy_assign_inv [OF r_copy_assign.hyps(2,3,4) r_copy_assign.IH r_copy_assign.hyps(5)]
    r_copy_assign.hyps(6)
  show ?case by auto
next
  case (r_vec_move v)
  with vec_move_inv [of v] show ?case by simp
next
  case (r_moved_from v)
  with vec_move_inv [of v] show ?case by simp
next
  case (r_write v i s x)
  then show ?case by (simp add: write_inv)
next
  case (r_add v e v')
  with add_inv [of v e v'] show ?case by simp
next
  case (r_remove v e v')
  with remove_inv [of v e v'] show ?case by simp
next
  case (r_removeAt v k v')
  with removeAt_inv [of v k v'] show ?case by simp
next
  case (r_clear v)
  show ?case by (rule clear_inv)
next
  case (r_append v other v')
  with append_inv [of v other v'] show ?case by simp
next
  case (r_append_range v list endIndex startIndex v')
  with append_range_inv [of v list endIndex startIndex v'] show ?case by simp
qed

section \<open>Searching and removing among the live elements\<close>

text \<open>
  The forward search answers whether the value is live.  \<open>remove\<close> of a value that
  is live removes its first occurrence: the loop stops before it leaves the live
  slots.
\<close>

lemma read_slot_live:
  assumes "vec_inv v" and "i < size_m v"
  shows "\<exists>x. read_slot (arr_m v) i = Inr x \<and> arr_m v ! i = Some x"
proof -
  from live_Some [OF assms] obtain x where "arr_m v ! i = Some x" by blast
  moreover from assms have "i < length (arr_m v)" by (simp add: vec_inv_def)
  ultimately show ?thesis by (simp add: read_slot_def)
qed

lemma contains_front_live:
  "vec_inv v \<Longrightarrow>
   contains_front (Value val) i v = Inr (Some val \<in> set (drop i (live v)))"
proof (induction "Value val :: 'a arg" i v rule: contains_front.induct)
  case (1 i v)
  show ?case
  proof (cases "i < size_m v")
    case False
    then have "drop i (live v) = []" by (simp add: live_def)
    with False show ?thesis by (subst contains_front.simps) simp
  next
    case True
    from read_slot_live [OF "1.prems" True] obtain x where
      r: "read_slot (arr_m v) i = Inr x" and s: "arr_m v ! i = Some x" by blast
    from True "1.prems" have "i < length (live v)" by (simp add: live_def vec_inv_def)
    then have d: "drop i (live v) = live v ! i # drop (Suc i) (live v)"
      by (simp add: Cons_nth_drop_Suc)
    have e: "live v ! i = Some x" using True s by (simp add: live_nth)
    show ?thesis
    proof (cases "x = val")
      case True
      with \<open>i < size_m v\<close> r d e show ?thesis
        by (subst contains_front.simps) (simp add: read_arg_Value)
    next
      case False
      with "1.hyps" [OF True r read_arg_Value False "1.prems"] True r d e show ?thesis
        by (subst contains_front.simps) (simp add: read_arg_Value)
    qed
  qed
qed

lemma contains_front_correct:
  "vec_inv v \<Longrightarrow> contains (Value val) True v = Inr (Some val \<in> set (live v))"
  by (simp add: contains_def contains_front_live lift_ub_def)

lemma remove1_first_index:
  "k < length xs \<Longrightarrow> xs ! k = x \<Longrightarrow> \<forall>j<k. xs ! j \<noteq> x \<Longrightarrow>
   remove1 x xs = take k xs @ drop (Suc k) xs"
proof (induction xs arbitrary: k)
  case Nil
  then show ?case by simp
next
  case (Cons y ys)
  show ?case
  proof (cases k)
    case 0
    with Cons.prems show ?thesis by simp
  next
    case (Suc m)
    with Cons.prems have "y \<noteq> x" by auto
    moreover from Suc Cons.prems have "m < length ys" "ys ! m = x" "\<forall>j<m. ys ! j \<noteq> x"
      by auto
    ultimately show ?thesis using Suc Cons.IH [of m] by simp
  qed
qed

lemma remove_loop_finds:
  assumes "vec_inv v" and "k < size_m v" and "arr_m v ! k = Some e"
    and "\<forall>j<k. arr_m v ! j \<noteq> Some e"
  shows "i \<le> k \<Longrightarrow> remove_loop freed (Value e) i v = erase_slot k v"
proof (induction "k - i" arbitrary: i)
  case 0
  then have ik: "i = k" by simp
  from assms(1,2) have "k < len_m v" "k < length (arr_m v)" by (simp_all add: vec_inv_def)
  with assms(3) ik show ?case
    by (subst remove_loop.simps) (simp add: read_slot_def read_arg_Value)
next
  case (Suc d)
  then have lt: "i < k" by simp
  with assms(2) have "i < size_m v" by simp
  from read_slot_live [OF assms(1) this] obtain x where
    r: "read_slot (arr_m v) i = Inr x" and s: "arr_m v ! i = Some x" by blast
  from lt assms(4) s have ne: "x \<noteq> e" by auto
  from assms(1) \<open>i < size_m v\<close> have "i < len_m v" by (simp add: vec_inv_def)
  with r ne have "remove_loop freed (Value e) i v = remove_loop freed (Value e) (i + 1) v"
    by (subst remove_loop.simps) (simp add: read_arg_Value)
  also have "\<dots> = erase_slot k v" using Suc lt by simp
  finally show ?case .
qed

lemma remove_present:
  assumes "vec_inv v" and "Some e \<in> set (live v)"
  shows "\<exists>v'. remove (Value e) v = Inr v' \<and> live v' = remove1 (Some e) (live v)
           \<and> size_m v' = size_m v - 1 \<and> vec_inv v'"
proof -
  obtain v1 where p: "(if size_m v < minlen_m v then shrink v else Inr v) = Inr v1"
    and l1: "live v1 = live v" and s1: "size_m v1 = size_m v"
  proof (cases "size_m v < minlen_m v")
    case True
    from shrink_inv [OF assms(1) True] that True show ?thesis by auto
  next
    case False
    with that show ?thesis by simp
  qed
  from pre_shrink_inv [OF assms(1) p] have i1: "vec_inv v1" .
  then have b: "size_m v1 \<le> length (arr_m v1)" "None \<notin> set (live v1)"
    by (simp_all add: vec_inv_def)
  then have ll: "length (live v1) = size_m v1" by (simp add: live_def)
  define k where "k = (LEAST k. k < length (live v1) \<and> live v1 ! k = Some e)"
  from assms(2) l1 obtain k0 where "k0 < length (live v1)" "live v1 ! k0 = Some e"
    by (auto simp: in_set_conv_nth)
  then have ex: "k0 < length (live v1) \<and> live v1 ! k0 = Some e" by simp
  from LeastI [of "\<lambda>k. k < length (live v1) \<and> live v1 ! k = Some e", OF ex]
  have k: "k < length (live v1)" "live v1 ! k = Some e" by (simp_all add: k_def)
  have first: "\<forall>j<k. live v1 ! j \<noteq> Some e"
  proof (intro allI impI)
    fix j assume j: "j < k"
    show "live v1 ! j \<noteq> Some e"
    proof
      assume "live v1 ! j = Some e"
      with j k(1) have "j < length (live v1) \<and> live v1 ! j = Some e" by simp
      from Least_le [of "\<lambda>k. k < length (live v1) \<and> live v1 ! k = Some e", OF this]
      have "k \<le> j" by (simp add: k_def)
      with j show False by simp
    qed
  qed
  from k ll have ks: "k < size_m v1" by simp
  have ak: "arr_m v1 ! k = Some e" using k(2) ks by (simp add: live_nth)
  have af: "\<forall>j<k. arr_m v1 ! j \<noteq> Some e"
    using first ks by (simp add: live_nth)
  from remove_loop_finds [OF i1 ks ak af, of 0]
  have rl: "remove_loop (size_m v < minlen_m v) (Value e) 0 v1 = erase_slot k v1" by simp
  have sub: "set (take (size_m v1 - (k + 1)) (drop (k + 1) (arr_m v1))) \<subseteq> set (live v1)"
  proof -
    have "take (size_m v1 - (k + 1)) (drop (k + 1) (arr_m v1)) = drop (k + 1) (live v1)"
      by (simp add: live_def drop_take)
    then show ?thesis using set_drop_subset [of "k + 1" "live v1"] by simp
  qed
  with b(2) have nn: "None \<notin> set (take (size_m v1 - (k + 1)) (drop (k + 1) (arr_m v1)))"
    by blast
  have "\<exists>a. copy_range (arr_m v1) (k + 1) (size_m v1) (arr_m v1) k = Inr a"
    using ks b(1) nn by (simp add: copy_range_Inr)
  then obtain v' where er: "erase_slot k v1 = Inr v'"
    by (auto simp: erase_slot_def)
  from erase_slot_inv [OF i1 er]
  have i': "vec_inv v'" and s': "size_m v' = size_m v1 - 1"
    and l': "live v' = take k (live v1) @ drop (Suc k) (live v1)" by simp_all
  from remove1_first_index [OF k(1) k(2) first] l'
  have "live v' = remove1 (Some e) (live v1)" by simp
  moreover have "remove (Value e) v = Inr v'" using p rl er by (simp add: remove_def)
  ultimately show ?thesis using i' s' s1 l1 by simp
qed

section \<open>Growth on \<open>add\<close>\<close>

text \<open>
  From a capacity of at least 2, \<open>add\<close> of a value to a full well-formed buffer
  grows it to \<open>floor(len_ * 1.5)\<close> slots, keeps every element at its index and puts
  the new one behind them.
\<close>

lemma add_grows_from_two:
  assumes "vec_inv v" and "size_m v = len_m v" and "2 \<le> len_m v"
  shows "\<exists>v'. add (Value e) v = Inr v'
           \<and> len_m v' = (len_m v * 3) div 2 \<and> length (arr_m v') = len_m v'
           \<and> size_m v' = size_m v + 1 \<and> live v' = live v @ [Some e]
           \<and> (\<forall>i<size_m v. arr_m v' ! i = arr_m v ! i)
           \<and> size_m v' \<le> len_m v'"
proof -
  from grow_inv [OF assms(1)] obtain v1 where
    g: "grow v = Inr v1" and l: "live v1 = live v" and s: "size_m v1 = size_m v"
    and c: "len_m v1 = (len_m v * 3) div 2" and n: "length (arr_m v1) = len_m v1"
    by blast
  from assms(2,3) have r: "size_m v < (len_m v * 3) div 2" by linarith
  let ?v' = "v1\<lparr>arr_m := (arr_m v1)[size_m v1 := Some e], size_m := size_m v1 + 1\<rparr>"
  have a: "add (Value e) v = Inr ?v'"
    using g assms(2) r s c n by (simp add: add_def read_arg_Value)
  have t: "take (size_m v) (arr_m v1) = live v" using l s by (simp add: live_def)
  have lv: "live ?v' = live v @ [Some e]"
    using r s c n t by (simp add: live_def take_Suc_conv_app_nth)
  have ix: "\<forall>i<size_m v. arr_m ?v' ! i = arr_m v ! i"
  proof (intro allI impI)
    fix i assume i: "i < size_m v"
    then have "arr_m ?v' ! i = arr_m v1 ! i" using s by simp
    also have "\<dots> = live v1 ! i" using i s by (simp add: live_nth)
    also have "\<dots> = arr_m v ! i" using i l by (simp add: live_nth)
    finally show "arr_m ?v' ! i = arr_m v ! i" .
  qed
  show ?thesis using a lv ix r s c n by auto
qed

text \<open>
  With a capacity below 2 the buffer does not grow and the write falls outside the
  array; and \<open>add\<close> of one of the buffer's own elements, as in \<open>v.add(v[0])\<close>,
  reads the element from the array that \<open>grow\<close> has deleted.
\<close>

lemma add_below_two:
  assumes "vec_inv v" and "size_m v = len_m v" and "len_m v < 2"
  shows "add (Value e) v = Inl (Undefined OutOfBounds)"
proof -
  from grow_inv [OF assms(1)] obtain v1 where
    g: "grow v = Inr v1" and s: "size_m v1 = size_m v"
    and c: "len_m v1 = (len_m v * 3) div 2" and n: "length (arr_m v1) = len_m v1"
    by blast
  from assms(3) c have "len_m v1 = len_m v" by linarith
  with s n assms(2) have "\<not> size_m v1 < length (arr_m v1)" by simp
  with g assms(2) show ?thesis by (simp add: add_def read_arg_Value)
qed

lemma add_own_element:
  assumes "vec_inv v" and "size_m v = len_m v"
  shows "add (Slot i) v = Inl (Undefined UseAfterFree)"
proof -
  from grow_inv [OF assms(1)] obtain v1 where g: "grow v = Inr v1" by blast
  with assms(2) show ?thesis by (simp add: add_def read_arg_def)
qed

section \<open>The claims\<close>

subsection \<open>C1: growth on \<open>add\<close>\<close>

text \<open>
  C1.  A full buffer of capacity 1, as \<open>vec(1, 1)\<close> makes it, is well-formed.
  \<open>add\<close> calls \<open>grow\<close>, which sets the capacity to \<open>floor(1 * 1.5) = 1\<close> and
  allocates 1 slot, so the buffer has not grown; the write to \<open>arr_[1]\<close> then falls
  outside the allocation, where the claim has the element stored and the capacity
  at least the length.
\<close>

theorem add_at_capacity_one:
  "size_m (vec_fill 1 (1::nat)) = len_m (vec_fill 1 (1::nat))
   \<and> vec_inv (vec_fill 1 (1::nat))
   \<and> grow (vec_fill 1 (1::nat)) = Inr (vec_fill 1 1)
   \<and> add (Value 2) (vec_fill 1 (1::nat)) = Inl (Undefined OutOfBounds)"
  by (simp add: add_def grow_def vec_fill_def copy_range_def minlen_of_def vec_inv_def
      live_def read_arg_Value)

subsection \<open>C2: the shrink threshold\<close>

text \<open>
  C2, as amended.  \<open>grow\<close> and \<open>shrink\<close> recompute the threshold from the number of
  live elements, which they leave as it is, not from the new capacity: it is
  \<open>size_ / 6\<close> when that is at least 64 and 0 otherwise.  The constructors that take
  an element count, and \<open>clear\<close>, set it by the same formula from the capacity; the
  constructor from a \<open>std::vector\<close> sets it from the number of elements copied, and
  the constructor from an initializer list sets it to 0.
\<close>

theorem threshold_recomputed:
  "(grow v = Inr v' \<longrightarrow> minlen_m v' = minlen_of (size_m v') \<and> size_m v' = size_m v)
   \<and> (shrink u = Inr u' \<longrightarrow> minlen_m u' = minlen_of (size_m u') \<and> size_m u' = size_m u)
   \<and> minlen_m (vec_n n :: 'a vec) = minlen_of (len_m (vec_n n :: 'a vec))
   \<and> minlen_m (vec_fill n x) = minlen_of (len_m (vec_fill n x))
   \<and> minlen_m (vec_form n f) = minlen_of (len_m (vec_form n f))
   \<and> minlen_m (clear w) = minlen_of (len_m (clear w))
   \<and> minlen_m (vec_vector xs) = minlen_of (size_m (vec_vector xs))
   \<and> minlen_m (vec_init_list ys) = 0"
proof -
  have 1: "grow v = Inr v' \<longrightarrow> minlen_m v' = minlen_of (size_m v') \<and> size_m v' = size_m v"
    by (auto simp: grow_Inr)
  have 2: "shrink u = Inr u' \<longrightarrow> minlen_m u' = minlen_of (size_m u') \<and> size_m u' = size_m u"
    by (auto simp: shrink_Inr)
  have 3: "minlen_m (clear w) = minlen_of (len_m (clear w))"
    by (simp add: clear_def minlen_of_def)
  show ?thesis using 1 2 3
    by (simp add: vec_n_def vec_fill_def vec_form_def vec_vector_def vec_init_list_def)
qed

theorem threshold_recomputed_witness:
  "grow (vec_fill 256 (0::nat)) =
      Inr \<lparr>arr_m = replicate 256 (Some 0) @ replicate 128 None,
           size_m = 256, len_m = 384, minlen_m = 0\<rparr>
   \<and> minlen_m \<lparr>arr_m = replicate 256 (Some (0::nat)) @ replicate 128 None,
           size_m = 256, len_m = 384, minlen_m = 0\<rparr> = minlen_of 256
   \<and> shrink (vec_n 400 :: nat vec) =
      Inr \<lparr>arr_m = replicate 200 None, size_m = 0, len_m = 200, minlen_m = 0\<rparr>
   \<and> minlen_m \<lparr>arr_m = replicate 200 (None :: nat option), size_m = 0, len_m = 200,
           minlen_m = 0\<rparr> = minlen_of 0"
proof -
  let ?v = "vec_fill 256 (0::nat)"
  let ?v' = "\<lparr>arr_m = replicate 256 (Some (0::nat)) @ replicate 128 None,
           size_m = 256, len_m = 384, minlen_m = 0\<rparr>"
  let ?u = "vec_n 400 :: nat vec"
  let ?u' = "\<lparr>arr_m = replicate 200 (None :: nat option), size_m = 0, len_m = 200,
           minlen_m = 0\<rparr>"
  have g: "grow ?v = Inr ?v'"
    by (simp add: grow_def vec_fill_def copy_range_def minlen_of_def)
  have s: "shrink ?u = Inr ?u'"
    by (simp add: shrink_def vec_n_def copy_range_def minlen_of_def)
  note t = threshold_recomputed [where v = ?v and v' = ?v' and u = ?u and u' = ?u'
      and n = 384 and x = "0::nat" and f = "\<lambda>i. i" and w = ?u
      and xs = "[1::nat]" and ys = "[1::nat]"]
  from t g have 1: "minlen_m ?v' = minlen_of (size_m ?v')" by blast
  from t s have 2: "minlen_m ?u' = minlen_of (size_m ?u')" by blast
  from 1 have 3: "minlen_m ?v' = minlen_of 256" by simp
  from 2 have 4: "minlen_m ?u' = minlen_of 0" by simp
  show ?thesis using g s 3 4 by blast
qed

text \<open>
  C2 as stated takes the threshold from the capacity.  A full buffer of 256 elements
  grows to capacity 384 on \<open>add\<close>; a sixth of that is 64, but the threshold is 0, from
  \<open>256 / 6 = 42\<close>.
\<close>

theorem threshold_after_growth_counterexample:
  "add (Value (7::nat)) (vec_fill 256 0) =
     Inr \<lparr>arr_m = replicate 256 (Some 0) @ Some 7 # replicate 127 None,
          size_m = 257, len_m = 384, minlen_m = 0\<rparr>
   \<and> minlen_of 384 = 64"
proof -
  have r: "replicate 128 (None :: nat option) = None # replicate 127 None"
    using replicate_Suc [of 127 "None :: nat option"] by simp
  have g: "grow (vec_fill 256 (0::nat)) =
      Inr \<lparr>arr_m = replicate 256 (Some 0) @ replicate 128 None,
           size_m = 256, len_m = 384, minlen_m = 0\<rparr>"
    by (simp add: grow_def vec_fill_def copy_range_def minlen_of_def)
  have "add (Value (7::nat)) (vec_fill 256 0) =
     Inr \<lparr>arr_m = replicate 256 (Some 0) @ Some 7 # replicate 127 None,
          size_m = 257, len_m = 384, minlen_m = 0\<rparr>"
    unfolding add_def using g
    by (simp add: vec_fill_def list_update_append r read_arg_Value)
  moreover have "minlen_of 384 = 64" by (simp add: minlen_of_def)
  ultimately show ?thesis by simp
qed

subsection \<open>C3: shrinking before a removal\<close>



subsection \<open>C4: \<open>remove\<close> of a value that is not live\<close>

text \<open>
  C4.  A value that is live is removed at its first occurrence (lemma
  \<open>remove_present\<close>).  But the loop of \<open>remove\<close> runs to \<open>len_\<close>, not to
  \<open>size_\<close>, so for a value that is not live it looks at slots that are not live.  After \<open>remove(15)\<close> on \<open>[5, 10, 15]\<close> the slot at index 2
  still holds 15; a second \<open>remove(15)\<close> finds it there and calls \<open>std::move\<close> on
  the range from \<open>arr_ + 3\<close> to \<open>arr_ + 2\<close>, although no live element is 15.  A
  value that is in no slot at all, such as 6, makes the loop read the slot at index
  3, which was never written.
\<close>

theorem remove_absent_value:
  "remove (Value (15::nat)) (vec_vector [5, 10, 15])
     = Inr \<lparr>arr_m = [Some 5, Some 10, Some 15, None], size_m = 2, len_m = 4, minlen_m = 0\<rparr>
   \<and> live \<lparr>arr_m = [Some 5, Some 10, Some (15::nat), None], size_m = 2, len_m = 4,
            minlen_m = 0\<rparr> = [Some 5, Some 10]
   \<and> remove (Value 15) \<lparr>arr_m = [Some 5, Some 10, Some (15::nat), None], size_m = 2, len_m = 4,
                 minlen_m = 0\<rparr> = Inl (Undefined InvalidRange)
   \<and> remove (Value 6) \<lparr>arr_m = [Some 5, Some 10, Some (15::nat), None], size_m = 2, len_m = 4,
                minlen_m = 0\<rparr> = Inl (Undefined IndeterminateRead)"
  by code_simp

subsection \<open>C5: \<open>contains\<close> from the back\<close>

text \<open>
  C5.  The backward loop of \<open>contains\<close> starts at the last live slot and counts
  upwards.  On the buffer \<open>[5]\<close>, made by \<open>clear\<close> and \<open>add(5)\<close>, the search for 6
  from the front returns false, and the search from the back goes on to the slot at
  index 1, which was never written.  The search for 5 from the back returns true,
  since 5 is in the slot where the loop starts.
\<close>

theorem contains_from_back:
  "add (Value (5::nat)) (clear (vec_n 64))
     = Inr \<lparr>arr_m = (replicate 32 None)[0 := Some 5], size_m = 1, len_m = 32, minlen_m = 0\<rparr>
   \<and> contains (Value 6) True \<lparr>arr_m = (replicate 32 None)[0 := Some (5::nat)], size_m = 1,
                      len_m = 32, minlen_m = 0\<rparr> = Inr False
   \<and> contains (Value 6) False \<lparr>arr_m = (replicate 32 None)[0 := Some (5::nat)], size_m = 1,
                       len_m = 32, minlen_m = 0\<rparr> = Inl (Undefined IndeterminateRead)
   \<and> contains (Value 5) False \<lparr>arr_m = (replicate 32 None)[0 := Some (5::nat)], size_m = 1,
                       len_m = 32, minlen_m = 0\<rparr> = Inr True"
  by code_simp

subsection \<open>C6: \<open>at\<close>\<close>

text \<open>
  C6.  On a well-formed buffer, \<open>at(i)\<close> with \<open>0 \<le> i < size_\<close> returns the element
  at index \<open>i\<close>, and throws \<open>std::out_of_range\<close> for \<open>i \<ge> size_\<close>; with \<open>i < 0\<close> it
  returns the element at index \<open>size_ + i\<close> when that is not negative, and throws
  otherwise.  The buffer is left as it is.
\<close>

theorem at_checked:
  assumes "vec_inv v"
  shows "(0 \<le> i \<and> i < int (size_m v) \<longrightarrow>
            at i v = Inr (arr_m v ! nat i) \<and> (\<exists>x. arr_m v ! nat i = Some x))
       \<and> (int (size_m v) \<le> i \<longrightarrow> at i v = Inl (Thrown out_of_range v))
       \<and> (i < 0 \<and> 0 \<le> int (size_m v) + i \<longrightarrow>
            at i v = Inr (arr_m v ! nat (int (size_m v) + i))
            \<and> (\<exists>x. arr_m v ! nat (int (size_m v) + i) = Some x))
       \<and> (int (size_m v) + i < 0 \<longrightarrow> at i v = Inl (Thrown out_of_range v))"
proof -
  from assms have b: "size_m v \<le> length (arr_m v)" by (simp add: vec_inv_def)
  have 1: "0 \<le> i \<and> i < int (size_m v) \<longrightarrow>
            at i v = Inr (arr_m v ! nat i) \<and> (\<exists>x. arr_m v ! nat i = Some x)"
  proof
    assume h: "0 \<le> i \<and> i < int (size_m v)"
    then have k: "nat i < size_m v" by linarith
    then have "at i v = Inr (arr_m v ! nat i)" using h b
      by (simp add: at_def subscript_def lift_ub_def)
    then show "at i v = Inr (arr_m v ! nat i) \<and> (\<exists>x. arr_m v ! nat i = Some x)"
      using live_Some [OF assms k] by simp
  qed
  have 2: "int (size_m v) \<le> i \<longrightarrow> at i v = Inl (Thrown out_of_range v)"
    by (simp add: at_def)
  have 3: "i < 0 \<and> 0 \<le> int (size_m v) + i \<longrightarrow>
            at i v = Inr (arr_m v ! nat (int (size_m v) + i))
            \<and> (\<exists>x. arr_m v ! nat (int (size_m v) + i) = Some x)"
  proof
    assume h: "i < 0 \<and> 0 \<le> int (size_m v) + i"
    then have k: "nat (int (size_m v) + i) < size_m v" by linarith
    then have "at i v = Inr (arr_m v ! nat (int (size_m v) + i))" using h b
      by (simp add: at_def subscript_def lift_ub_def Let_def)
    then show "at i v = Inr (arr_m v ! nat (int (size_m v) + i))
            \<and> (\<exists>x. arr_m v ! nat (int (size_m v) + i) = Some x)"
      using live_Some [OF assms k] by simp
  qed
  have 4: "int (size_m v) + i < 0 \<longrightarrow> at i v = Inl (Thrown out_of_range v)"
    by (simp add: at_def Let_def)
  show ?thesis using 1 2 3 4 by blast
qed

text \<open>The buffer \<open>[5, 10, 15]\<close> of the claim.\<close>

theorem at_checked_witness:
  "at (-1) (vec_init_list [5, 10, 15 :: nat]) = Inr (Some 15)
   \<and> at (-2) (vec_init_list [5, 10, 15 :: nat]) = Inr (Some 10)
   \<and> at (-3) (vec_init_list [5, 10, 15 :: nat]) = Inr (Some 5)
   \<and> at (-4) (vec_init_list [5, 10, 15 :: nat])
       = Inl (Thrown out_of_range (vec_init_list [5, 10, 15]))
   \<and> at 0 (vec_init_list [5, 10, 15 :: nat]) = Inr (Some 5)
   \<and> at 3 (vec_init_list [5, 10, 15 :: nat])
       = Inl (Thrown out_of_range (vec_init_list [5, 10, 15]))"
proof -
  let ?v = "vec_init_list [5, 10, 15 :: nat]"
  have i: "vec_inv ?v" by (rule vec_init_list_inv)
  have s: "size_m ?v = 3" "arr_m ?v = [Some 5, Some 10, Some 15]"
    by (simp_all add: vec_init_list_def)
  from at_checked [OF i, of "-1"] s have 1: "at (-1) ?v = Inr (Some 15)" by simp
  from at_checked [OF i, of "-2"] s have 2: "at (-2) ?v = Inr (Some 10)" by simp
  from at_checked [OF i, of "-3"] s have 3: "at (-3) ?v = Inr (Some 5)" by simp
  from at_checked [OF i, of "-4"] s have 4: "at (-4) ?v = Inl (Thrown out_of_range ?v)"
    by simp
  from at_checked [OF i, of 0] s have 5: "at 0 ?v = Inr (Some 5)" by simp
  from at_checked [OF i, of 3] s have 6: "at 3 ?v = Inl (Thrown out_of_range ?v)" by simp
  show ?thesis using 1 2 3 4 5 6 by blast
qed

subsection \<open>C7: \<open>append\<close> of a range\<close>

text \<open>
  C7.  \<open>append(list, endIndex, startIndex)\<close> throws exactly for an invalid range
  and leaves the receiver as it was (lemmas \<open>append_range_invalid\<close>,
  \<open>append_range_no_throw\<close>), and what it returns has exactly the range appended
  (lemma \<open>append_range_appends\<close>).  But for a valid range it does not always
  return.  On the full buffer \<open>vec(1, 5)\<close>, which is well-formed with its capacity
  allocated, \<open>grow\<close> leaves the capacity at \<open>floor(1 * 1.5) = 1\<close> and the loop
  \<open>while (len_ - size_ < 2) grow()\<close> never ends.  On the buffer made from the
  initializer list \<open>{5}\<close>, with recorded capacity 2 and 1 slot, the loop is not
  entered and the copy to \<open>arr_ + 1\<close> falls outside the array.
\<close>

theorem append_range_no_return:
  "vec_inv (vec_fill 1 (5::nat)) \<and> capacity_allocated (vec_fill 1 (5::nat))
   \<and> append_range (vec_fill 4 (9::nat)) 3 1 (vec_fill 1 5) = None
   \<and> vec_inv (vec_init_list [5::nat])
   \<and> append_range (vec_fill 4 (9::nat)) 2 1 (vec_init_list [5])
       = Some (Inl (Undefined OutOfBounds))"
proof -
  have i: "vec_inv (vec_fill 1 (5::nat))" by (rule vec_fill_inv)
  have c: "capacity_allocated (vec_fill 1 (5::nat))"
    by (simp add: capacity_allocated_def vec_fill_def)
  have "len_m (vec_fill 1 (5::nat)) < 2" "free_slots (vec_fill 1 (5::nat)) < 2"
    by (simp_all add: vec_fill_def free_slots_def)
  from grow_loop_diverges [OF i this] have "grow_loop 2 (vec_fill 1 (5::nat)) = None" .
  moreover have "(1::nat) < 3" "3 \<le> size_m (vec_fill 4 (9::nat))"
    by (simp_all add: vec_fill_def)
  ultimately have 1: "append_range (vec_fill 4 (9::nat)) 3 1 (vec_fill 1 5) = None"
    by (simp add: append_range_valid)
  have j: "vec_inv (vec_init_list [5::nat])" by (rule vec_init_list_inv)
  have g: "grow_loop 1 (vec_init_list [5::nat]) = Some (Inr (vec_init_list [5]))"
    by (subst grow_loop.simps) (simp add: free_slots_def vec_init_list_def)
  have "(1::nat) < 2" "2 \<le> size_m (vec_fill 4 (9::nat))"
    by (simp_all add: vec_fill_def)
  then have 2: "append_range (vec_fill 4 (9::nat)) 2 1 (vec_init_list [5])
       = Some (Inl (Undefined OutOfBounds))"
    using g by (simp add: append_range_valid copy_range_def vec_init_list_def vec_fill_def)
  show ?thesis using i c 1 j 2 by blast
qed

subsection \<open>C8: \<open>clear\<close>\<close>

text \<open>
  C8.  Whatever the buffer was, \<open>clear\<close> leaves capacity 32 with 32 allocated
  slots, length 0 and threshold 0; \<open>add\<close> then returns, the size is 1 and the
  element is at index 0.
\<close>

theorem clear_resets:
  "len_m (clear v) = 32 \<and> size_m (clear v) = 0 \<and> minlen_m (clear v) = 0
   \<and> length (arr_m (clear v)) = 32
   \<and> (\<exists>v'. add (Value e) (clear v) = Inr v' \<and> size_op v' = 1 \<and> live v' = [Some e]
          \<and> at 0 v' = Inr (Some e))"
proof -
  let ?v' = "\<lparr>arr_m = (replicate 32 None)[0 := Some e], size_m = 1, len_m = 32,
              minlen_m = 0\<rparr>"
  have a: "add (Value e) (clear v) = Inr ?v'" by (simp add: add_def clear_def read_arg_Value)
  have l: "live ?v' = [Some e]" by (simp add: live_def take_Suc_conv_app_nth)
  have t: "at 0 ?v' = Inr (Some e)" by (simp add: at_def subscript_def lift_ub_def)
  have s: "size_op ?v' = 1" by (simp add: size_op_def)
  show ?thesis using a l t s by (simp add: clear_def)
qed

subsection \<open>C9: capacity 0\<close>

text \<open>
  C9.  A buffer of capacity 0, as \<open>vec(0)\<close> makes it or as a move leaves its
  source, is full; \<open>add\<close> grows it to \<open>floor(0 * 1.5) = 0\<close> slots and writes to
  \<open>arr_[0]\<close>, outside the allocation.
\<close>

theorem add_at_capacity_zero:
  "len_m (vec_n 0 :: 'a vec) = 0
   \<and> grow (vec_n 0 :: 'a vec) = Inr (vec_n 0)
   \<and> add (Value e) (vec_n 0) = Inl (Undefined OutOfBounds)
   \<and> len_m (snd (vec_move w)) = 0
   \<and> add (Value e) (snd (vec_move w)) = Inl (Undefined OutOfBounds)"
  by (simp add: add_def grow_def vec_n_def vec_move_def copy_range_def minlen_of_def
      read_arg_Value)

subsection \<open>C10: copy assignment\<close>

text \<open>
  C10.  Copy assignment from a well-formed buffer \<open>a\<close> at another address gives
  the receiver the \<open>len_\<close>, \<open>size_\<close> and \<open>minlen_\<close> of \<open>a\<close> and the live elements
  of \<open>a\<close> in an array of exactly \<open>a.size_\<close> slots.  The recorded capacity is
  allocated afterwards exactly when \<open>a.len_ \<le> a.size_\<close>.
\<close>

theorem copy_assign_capacity:
  assumes "this \<noteq> that" and "st this = Some b" and "st that = Some a" and "vec_inv a"
  shows "\<exists>b'. copy_assign this that st = Inr (st(this \<mapsto> b'))
           \<and> len_m b' = len_m a \<and> size_m b' = size_m a \<and> minlen_m b' = minlen_m a
           \<and> length (arr_m b') = size_m a \<and> live b' = live a
           \<and> (capacity_allocated b' \<longleftrightarrow> len_m a \<le> size_m a)"
proof -
  from assms(4) have i: "size_m a \<le> length (arr_m a)" "None \<notin> set (take (size_m a) (arr_m a))"
    by (simp_all add: vec_inv_def live_def)
  let ?b' = "\<lparr>arr_m = take (size_m a) (arr_m a), size_m = size_m a, len_m = len_m a,
              minlen_m = minlen_m a\<rparr>"
  have c: "copy_assign this that st = Inr (st(this \<mapsto> ?b'))"
    using assms(1,2,3) i by (simp add: copy_assign_def copy_range_def)
  have "live ?b' = live a" by (simp add: live_def)
  moreover have "length (arr_m ?b') = size_m a" using i by simp
  moreover have "capacity_allocated ?b' \<longleftrightarrow> len_m a \<le> size_m a"
    using i by (simp add: capacity_allocated_def)
  ultimately show ?thesis using c by auto
qed

theorem copy_assign_capacity_witness:
  "\<exists>b'. copy_assign 0 1 [0 \<mapsto> vec_n 10, 1 \<mapsto> vec_init_list [1, 2, 3 :: nat]]
          = Inr ([0 \<mapsto> vec_n 10, 1 \<mapsto> vec_init_list [1, 2, 3]](0 \<mapsto> b'))
        \<and> len_m b' = 6 \<and> size_m b' = 3 \<and> length (arr_m b') = 3
        \<and> \<not> capacity_allocated b'"
proof -
  let ?st = "[0 \<mapsto> vec_n 10, 1 \<mapsto> vec_init_list [1, 2, 3 :: nat]] :: nat store"
  have 1: "(0::nat) \<noteq> 1" by simp
  have 2: "?st 0 = Some (vec_n 10)" by simp
  have 3: "?st 1 = Some (vec_init_list [1, 2, 3])" by simp
  have 4: "vec_inv (vec_init_list [1, 2, 3 :: nat])" by (rule vec_init_list_inv)
  have 5: "len_m (vec_init_list [1, 2, 3 :: nat]) = 6" "size_m (vec_init_list [1, 2, 3 :: nat]) = 3"
    by (simp_all add: vec_init_list_def)
  from copy_assign_capacity [OF 1 2 3 4] obtain b' where
    c: "copy_assign 0 1 ?st = Inr (?st(0 \<mapsto> b'))"
    and l: "len_m b' = len_m (vec_init_list [1, 2, 3 :: nat])"
    and s: "size_m b' = size_m (vec_init_list [1, 2, 3 :: nat])"
    and n: "length (arr_m b') = size_m (vec_init_list [1, 2, 3 :: nat])"
    and k: "capacity_allocated b' \<longleftrightarrow>
            len_m (vec_init_list [1, 2, 3 :: nat]) \<le> size_m (vec_init_list [1, 2, 3 :: nat])"
    by blast
  have "len_m b' = 6" "size_m b' = 3" "length (arr_m b') = 3" "\<not> capacity_allocated b'"
    using l s n k 5 by simp_all
  with c show ?thesis by blast
qed

end
